theory Spec2Isabelle
  imports Main "HOL-Library.Char_ord" "HOL-Library.List_Lexorder" "HOL-Library.AList"
begin

section \<open>downcan: scanning a tree for ZIP archives and expanding them\<close>

text \<open>
  The development follows \<^verbatim>\<open>downcan.go\<close>. Go strings are byte sequences, so a path
  and the content of a file are both \<open>string\<close> (a list of 8-bit characters). The
  functions of the Go standard library that the program calls (\<^verbatim>\<open>path/filepath\<close>,
  \<^verbatim>\<open>os\<close>, \<^verbatim>\<open>net/http\<close>) are modelled for a Unix system by what they compute.
\<close>

subsection \<open>\<^verbatim>\<open>path/filepath\<close> on Unix\<close>

text \<open>Splitting a path at every separator: \<open>a//b\<close> has the elements \<open>a\<close>, the empty
  string and \<open>b\<close>; the empty path has the single element \<open>''''\<close>.\<close>

fun split_sep :: "string \<Rightarrow> string list" where
  "split_sep [] = [[]]"
| "split_sep (c # cs) =
     (if c = CHR ''/'' then [] # split_sep cs
      else (case split_sep cs of [] \<Rightarrow> [[c]] | e # es \<Rightarrow> (c # e) # es))"

text \<open>\<^verbatim>\<open>strings.Join(elems, "/")\<close>.\<close>

fun join_sep :: "string list \<Rightarrow> string" where
  "join_sep [] = []"
| "join_sep [e] = e"
| "join_sep (e # es) = e @ ''/'' @ join_sep es"

text \<open>
  \<^verbatim>\<open>filepath.Clean\<close>: the elements are read from left to right onto a stack (held
  reversed in \<open>out\<close>). Empty elements and \<open>.\<close> are dropped; \<open>..\<close> removes the element
  before it when there is one that is not itself \<open>..\<close>, is dropped at the top of a rooted
  path, and is kept at the start of a relative one. The empty result is \<open>.\<close>, or \<open>/\<close> for
  a rooted path.
\<close>

fun clean_elems :: "bool \<Rightarrow> string list \<Rightarrow> string list \<Rightarrow> string list" where
  "clean_elems rooted out [] = rev out"
| "clean_elems rooted out (e # es) =
     (if e = [] \<or> e = ''.'' then clean_elems rooted out es
      else if e = ''..'' then
        (case out of
           [] \<Rightarrow> if rooted then clean_elems rooted [] es else clean_elems rooted [e] es
         | t # ts \<Rightarrow> if t = ''..'' then clean_elems rooted (e # out) es
                    else clean_elems rooted ts es)
      else clean_elems rooted (e # out) es)"

definition Clean :: "string \<Rightarrow> string" where
  "Clean path =
     (let rooted = (path \<noteq> [] \<and> hd path = CHR ''/'');
          body = join_sep (clean_elems rooted [] (split_sep path))
      in if rooted then CHR ''/'' # body
         else if body = [] then ''.'' else body)"

text \<open>\<^verbatim>\<open>filepath.Join\<close>: leading empty elements are skipped, the others are joined with
  the separator and cleaned; with nothing but empty elements the result is empty.\<close>

definition Join :: "string list \<Rightarrow> string" where
  "Join elem =
     (case dropWhile (\<lambda>e. e = []) elem of
        [] \<Rightarrow> []
      | es \<Rightarrow> Clean (join_sep es))"

text \<open>\<^verbatim>\<open>filepath.Dir\<close>: everything up to and including the last separator, cleaned.\<close>

definition Dir :: "string \<Rightarrow> string" where
  "Dir path = Clean (rev (dropWhile (\<lambda>c. c \<noteq> CHR ''/'') (rev path)))"

text \<open>\<^verbatim>\<open>filepath.Base\<close>: the last element, after the trailing separators are removed;
  \<open>.\<close> for the empty path and \<open>/\<close> for a path of separators only.\<close>

definition Base :: "string \<Rightarrow> string" where
  "Base path =
     (if path = [] then ''.''
      else
        (let p = rev (dropWhile (\<lambda>c. c = CHR ''/'') (rev path));
             b = rev (takeWhile (\<lambda>c. c \<noteq> CHR ''/'') (rev p))
         in if b = [] then ''/'' else b))"


subsection \<open>The file system\<close>

text \<open>
  The file system is a tree of regular files and directories (no symbolic links, no
  devices). A file holds its bytes and whether it may be opened for reading; a
  directory holds its entries by name and whether its entries may be enumerated.
  The state of the file system is the node of the root directory; the working
  directory of the process is the root, so a relative and a rooted path with the same
  elements name the same node.
\<close>

datatype node =
    FileNode (readable: bool) (content: string)
  | DirNode (listable: bool) (entries: "(string \<times> node) list")

datatype error =
    ENOENT | ENOTDIR | EISDIR | EACCES | EOF
  | ErrFormat
  | Msg string
  | Wrap string error

fun IsDir :: "node \<Rightarrow> bool" where
  "IsDir (DirNode l es) = True"
| "IsDir (FileNode r d) = False"

text \<open>The elements that a path names below the root: the path is resolved
  lexically, and \<open>..\<close> at the root stays at the root.\<close>

definition path_elems :: "string \<Rightarrow> string list" where
  "path_elems path = clean_elems True [] (split_sep path)"

fun child :: "node \<Rightarrow> string \<Rightarrow> error + node" where
  "child (FileNode r d) name = Inl ENOTDIR"
| "child (DirNode l es) name =
     (case map_of es name of None \<Rightarrow> Inl ENOENT | Some n \<Rightarrow> Inr n)"

fun lookup :: "node \<Rightarrow> string list \<Rightarrow> error + node" where
  "lookup n [] = Inr n"
| "lookup n (c # cs) =
     (case child n c of Inl e \<Rightarrow> Inl e | Inr m \<Rightarrow> lookup m cs)"

text \<open>\<^verbatim>\<open>os.Stat\<close> and \<^verbatim>\<open>os.Lstat\<close> (the same without symbolic links): the node at the
  path, or the error; the empty path names nothing.\<close>

definition os_Stat :: "node \<Rightarrow> string \<Rightarrow> error + node" where
  "os_Stat fs path = (if path = [] then Inl ENOENT else lookup fs (path_elems path))"

text \<open>
  \<^verbatim>\<open>os.MkdirAll\<close>: every missing directory along the path is created (enumerable,
  empty); an existing directory is left as it is; a regular file on the way, or at the
  path itself, is the error \<^verbatim>\<open>ENOTDIR\<close>, and then nothing has been created.
\<close>

fun mkdirAll_at :: "node \<Rightarrow> string list \<Rightarrow> error + node" where
  "mkdirAll_at (FileNode r d) cs = Inl ENOTDIR"
| "mkdirAll_at (DirNode l es) [] = Inr (DirNode l es)"
| "mkdirAll_at (DirNode l es) (c # cs) =
     (case mkdirAll_at (case map_of es c of None \<Rightarrow> DirNode True [] | Some n \<Rightarrow> n) cs of
        Inl e \<Rightarrow> Inl e
      | Inr n' \<Rightarrow> Inr (DirNode l (AList.update c n' es)))"

definition os_MkdirAll :: "node \<Rightarrow> string \<Rightarrow> error + node" where
  "os_MkdirAll fs path = (if path = [] then Inl ENOENT else mkdirAll_at fs (path_elems path))"

text \<open>
  Writing a regular file: \<^verbatim>\<open>os.Create\<close> opens the path for reading and writing,
  creating the file when it is missing and truncating it when it exists. It creates
  no directory: a missing parent is \<^verbatim>\<open>ENOENT\<close>, a regular file on the way is
  \<^verbatim>\<open>ENOTDIR\<close>, an existing directory at the path is \<^verbatim>\<open>EISDIR\<close>, an existing file
  that may not be read is \<^verbatim>\<open>EACCES\<close>. \<open>write_at\<close> leaves the bytes \<open>data\<close> in the
  file.
\<close>

fun write_at :: "node \<Rightarrow> string list \<Rightarrow> string \<Rightarrow> error + node" where
  "write_at (FileNode r d) [] data = (if r then Inr (FileNode r data) else Inl EACCES)"
| "write_at (DirNode l es) [] data = Inl EISDIR"
| "write_at (FileNode r d) (c # cs) data = Inl ENOTDIR"
| "write_at (DirNode l es) (c # cs) data =
     (case map_of es c of
        None \<Rightarrow>
          if cs = [] then Inr (DirNode l (AList.update c (FileNode True data) es))
          else Inl ENOENT
      | Some n \<Rightarrow>
          (case write_at n cs data of
             Inl e \<Rightarrow> Inl e
           | Inr n' \<Rightarrow> Inr (DirNode l (AList.update c n' es))))"

definition os_Create :: "node \<Rightarrow> string \<Rightarrow> error + node" where
  "os_Create fs path = (if path = [] then Inl ENOENT else write_at fs (path_elems path) [])"

text \<open>\<^verbatim>\<open>io.Copy\<close> into the file just created at \<open>path\<close>: the file ends up holding
  \<open>data\<close>.\<close>

definition io_Copy :: "node \<Rightarrow> string \<Rightarrow> string \<Rightarrow> node" where
  "io_Copy fs path data =
     (case write_at fs (path_elems path) data of Inl e \<Rightarrow> fs | Inr fs' \<Rightarrow> fs')"

text \<open>\<^verbatim>\<open>os.Open\<close>: the node that the handle reads, when the path exists and may be
  read. A directory can be opened; reading from it fails.\<close>

definition os_Open :: "node \<Rightarrow> string \<Rightarrow> error + node" where
  "os_Open fs path =
     (case os_Stat fs path of
        Inl e \<Rightarrow> Inl e
      | Inr (FileNode r d) \<Rightarrow> if r then Inr (FileNode r d) else Inl EACCES
      | Inr (DirNode l es) \<Rightarrow> Inr (DirNode l es))"

text \<open>
  \<^verbatim>\<open>file.Read(buffer)\<close> at the start of a file, into a buffer of \<open>n\<close> zero bytes: the
  number of bytes read and the buffer afterwards. At most \<open>n\<close> bytes are copied to the
  front of the buffer and the rest of it stays zero (\<open>read_into\<close>). Reading at the end
  of the file, which is where an empty file starts, returns no byte and the error
  \<^verbatim>\<open>io.EOF\<close>.
\<close>

definition read_into :: "nat \<Rightarrow> string \<Rightarrow> string" where
  "read_into n d = take n d @ replicate (n - length d) (CHR 0x00)"

fun file_Read :: "node \<Rightarrow> nat \<Rightarrow> error + (nat \<times> string)" where
  "file_Read (DirNode l es) n = Inl EISDIR"
| "file_Read (FileNode r d) n =
     (if d = [] then Inl EOF else Inr (min n (length d), read_into n d))"

subsection \<open>\<^verbatim>\<open>filepath.Walk\<close>\<close>

text \<open>\<^verbatim>\<open>readDirNames\<close>: the names of a directory's entries, sorted.\<close>

fun readDirNames :: "node \<Rightarrow> error + string list" where
  "readDirNames (DirNode l es) = (if l then Inr (sort (map fst es)) else Inl EACCES)"
| "readDirNames (FileNode r d) = Inl ENOTDIR"

lemma size_child: "map_of es name = Some n \<Longrightarrow> size n < Suc (size_list (size_prod (\<lambda>_. 0) size) es)"
  by (induction es) (auto split: if_splits)

text \<open>
  \<^verbatim>\<open>walk\<close>: a node that is not a directory is handed to the function; a directory is
  enumerated first and handed over with the error of the enumeration, and the walk
  goes into it only when neither the enumeration nor the function failed. Each name is
  then looked up (\<^verbatim>\<open>lstat\<close>) and walked, and the first error ends the walk. The
  function of this program returns no \<^verbatim>\<open>SkipDir\<close>, so every error it returns ends
  the walk. The function gets the path, the node (none when \<^verbatim>\<open>lstat\<close> failed) and
  the error, and threads a state of its own.
\<close>

type_synonym 's WalkFunc = "string \<Rightarrow> node option \<Rightarrow> error option \<Rightarrow> 's \<Rightarrow> error option \<times> 's"

function walk :: "string \<Rightarrow> node \<Rightarrow> 's WalkFunc \<Rightarrow> 's \<Rightarrow> error option \<times> 's" where
  "walk path (FileNode r d) walkFn s = walkFn path (Some (FileNode r d)) None s"
| "walk path (DirNode l es) walkFn s =
     (case readDirNames (DirNode l es) of
        Inl err \<Rightarrow> walkFn path (Some (DirNode l es)) (Some err) s
      | Inr names \<Rightarrow>
          (case walkFn path (Some (DirNode l es)) None s of
             (Some err1, s1) \<Rightarrow> (Some err1, s1)
           | (None, s1) \<Rightarrow>
               fold (\<lambda>name acc.
                       case acc of
                         (Some e, st) \<Rightarrow> (Some e, st)
                       | (None, st) \<Rightarrow>
                           (case map_of es name of
                              None \<Rightarrow> walkFn (Join [path, name]) None (Some ENOENT) st
                            | Some fileInfo \<Rightarrow> walk (Join [path, name]) fileInfo walkFn st))
                    names (None, s1)))"
  by pat_completeness auto
termination
  by (relation "measure (\<lambda>(path, n, walkFn, s). size n)") (auto dest: size_child)

definition Walk :: "node \<Rightarrow> string \<Rightarrow> 's WalkFunc \<Rightarrow> 's \<Rightarrow> error option \<times> 's" where
  "Walk fs root fn s =
     (case os_Stat fs root of
        Inl err \<Rightarrow> fn root None (Some err) s
      | Inr info \<Rightarrow> walk root info fn s)"


subsection \<open>\<^verbatim>\<open>http.DetectContentType\<close>\<close>

text \<open>
  The sniffer of \<^verbatim>\<open>net/http\<close>: at most the first 512 bytes are considered, the
  signatures of a fixed table are tried in order, and the first that matches gives the
  type; \<^verbatim>\<open>application/octet-stream\<close> is the fallback.
\<close>

datatype sniffSig =
    HtmlSig string
  | MaskedSig string string bool string
  | ExactSig string string
  | Mp4Sig
  | TextSig

definition isWS :: "char \<Rightarrow> bool" where
  "isWS b = (b = CHR 0x09 \<or> b = CHR 0x0A \<or> b = CHR 0x0C \<or> b = CHR 0x0D \<or> b = CHR '' '')"

definition isTT :: "char \<Rightarrow> bool" where
  "isTT b = (b = CHR '' '' \<or> b = CHR ''>'')"

text \<open>The bitwise conjunction of two bytes.\<close>

fun and_byte :: "char \<Rightarrow> char \<Rightarrow> char" where
  "and_byte (Char a0 a1 a2 a3 a4 a5 a6 a7) (Char b0 b1 b2 b3 b4 b5 b6 b7) =
     Char (a0 \<and> b0) (a1 \<and> b1) (a2 \<and> b2) (a3 \<and> b3) (a4 \<and> b4) (a5 \<and> b5) (a6 \<and> b6) (a7 \<and> b7)"

text \<open>The loop of the MP4 signature over the brands of the \<^verbatim>\<open>ftyp\<close> box, four bytes
  at a time from \<open>st\<close>; the brand at offset 12 is skipped.\<close>

function mp4_brands :: "int \<Rightarrow> int \<Rightarrow> string \<Rightarrow> bool" where
  "mp4_brands st boxSize data =
     (if st < boxSize then
        (if st \<noteq> 12 \<and> take 3 (drop (nat st) data) = ''mp4'' then True
         else mp4_brands (st + 4) boxSize data)
      else False)"
  by pat_completeness auto
termination
  by (relation "measure (\<lambda>(st, boxSize, data). nat (boxSize - st))") auto

declare mp4_brands.simps [simp del]

text \<open>\<^verbatim>\<open>int(binary.BigEndian.Uint32(data[:4]))\<close>.\<close>

definition be_uint32 :: "string \<Rightarrow> int" where
  "be_uint32 data = foldl (\<lambda>acc b. acc * 256 + of_char b) 0 (take 4 data)"

fun match_sig :: "sniffSig \<Rightarrow> string \<Rightarrow> nat \<Rightarrow> string" where
  "match_sig (HtmlSig h) data firstNonWS =
     (let data = drop firstNonWS data in
      if length data < length h + 1 then []
      else if \<not> list_all (\<lambda>(b, db).
                 b = (if CHR ''A'' \<le> b \<and> b \<le> CHR ''Z'' then and_byte db (CHR 0xDF) else db))
               (zip h data) then []
      else if \<not> isTT (data ! length h) then []
      else ''text/html; charset=utf-8'')"
| "match_sig (MaskedSig msk pat skipWS ct) data firstNonWS =
     (let data = (if skipWS then drop firstNonWS data else data) in
      if length pat \<noteq> length msk then []
      else if length data < length pat then []
      else if \<not> list_all (\<lambda>(pb, db, mb). and_byte db mb = pb) (zip pat (zip data msk)) then []
      else ct)"
| "match_sig (ExactSig sig ct) data firstNonWS =
     (if take (length sig) data = sig then ct else [])"
| "match_sig Mp4Sig data firstNonWS =
     (if length data < 12 then []
      else
        (let boxSize = be_uint32 data in
         if int (length data) < boxSize \<or> boxSize mod 4 \<noteq> 0 then []
         else if take 4 (drop 4 data) \<noteq> ''ftyp'' then []
         else if mp4_brands 8 boxSize data then ''video/mp4'' else []))"
| "match_sig TextSig data firstNonWS =
     (if list_ex (\<lambda>b. b \<le> CHR 0x08 \<or> b = CHR 0x0B \<or> (CHR 0x0E \<le> b \<and> b \<le> CHR 0x1A) \<or>
                       (CHR 0x1C \<le> b \<and> b \<le> CHR 0x1F))
           (drop firstNonWS data) then []
      else ''text/plain; charset=utf-8'')"

definition sniffSignatures :: "sniffSig list" where
  "sniffSignatures =
     [HtmlSig ''<!DOCTYPE HTML'',
      HtmlSig ''<HTML'',
      HtmlSig ''<HEAD'',
      HtmlSig ''<SCRIPT'',
      HtmlSig ''<IFRAME'',
      HtmlSig ''<H1'',
      HtmlSig ''<DIV'',
      HtmlSig ''<FONT'',
      HtmlSig ''<TABLE'',
      HtmlSig ''<A'',
      HtmlSig ''<STYLE'',
      HtmlSig ''<TITLE'',
      HtmlSig ''<B'',
      HtmlSig ''<BODY'',
      HtmlSig ''<BR'',
      HtmlSig ''<P'',
      HtmlSig ''<!--'',
      MaskedSig ([CHR 0xFF, CHR 0xFF, CHR 0xFF, CHR 0xFF, CHR 0xFF]) (''<?xml'') True ''text/xml; charset=utf-8'',
      ExactSig (''%PDF-'') ''application/pdf'',
      ExactSig (''%!PS-Adobe-'') ''application/postscript'',
      MaskedSig ([CHR 0xFF, CHR 0xFF, CHR 0x00, CHR 0x00]) ([CHR 0xFE, CHR 0xFF, CHR 0x00, CHR 0x00]) False ''text/plain; charset=utf-16be'',
      MaskedSig ([CHR 0xFF, CHR 0xFF, CHR 0x00, CHR 0x00]) ([CHR 0xFF, CHR 0xFE, CHR 0x00, CHR 0x00]) False ''text/plain; charset=utf-16le'',
      MaskedSig ([CHR 0xFF, CHR 0xFF, CHR 0xFF, CHR 0x00]) ([CHR 0xEF, CHR 0xBB, CHR 0xBF, CHR 0x00]) False ''text/plain; charset=utf-8'',
      ExactSig ([CHR 0x00, CHR 0x00, CHR 0x01, CHR 0x00]) ''image/x-icon'',
      ExactSig ([CHR 0x00, CHR 0x00, CHR 0x02, CHR 0x00]) ''image/x-icon'',
      ExactSig (''BM'') ''image/bmp'',
      ExactSig (''GIF87a'') ''image/gif'',
      ExactSig (''GIF89a'') ''image/gif'',
      MaskedSig ([CHR 0xFF, CHR 0xFF, CHR 0xFF, CHR 0xFF, CHR 0x00, CHR 0x00, CHR 0x00, CHR 0x00, CHR 0xFF, CHR 0xFF, CHR 0xFF, CHR 0xFF, CHR 0xFF, CHR 0xFF]) (''RIFF'' @ [CHR 0x00, CHR 0x00, CHR 0x00, CHR 0x00] @ ''WEBPVP'') False ''image/webp'',
      ExactSig ([CHR 0x89] @ ''PNG'' @ [CHR 0x0D, CHR 0x0A, CHR 0x1A, CHR 0x0A]) ''image/png'',
      ExactSig ([CHR 0xFF, CHR 0xD8, CHR 0xFF]) ''image/jpeg'',
      MaskedSig ([CHR 0xFF, CHR 0xFF, CHR 0xFF, CHR 0xFF, CHR 0x00, CHR 0x00, CHR 0x00, CHR 0x00, CHR 0xFF, CHR 0xFF, CHR 0xFF, CHR 0xFF]) (''FORM'' @ [CHR 0x00, CHR 0x00, CHR 0x00, CHR 0x00] @ ''AIFF'') False ''audio/aiff'',
      MaskedSig ([CHR 0xFF, CHR 0xFF, CHR 0xFF]) (''ID3'') False ''audio/mpeg'',
      MaskedSig ([CHR 0xFF, CHR 0xFF, CHR 0xFF, CHR 0xFF, CHR 0xFF]) (''OggS'' @ [CHR 0x00]) False ''application/ogg'',
      MaskedSig ([CHR 0xFF, CHR 0xFF, CHR 0xFF, CHR 0xFF, CHR 0xFF, CHR 0xFF, CHR 0xFF, CHR 0xFF]) (''MThd'' @ [CHR 0x00, CHR 0x00, CHR 0x00, CHR 0x06]) False ''audio/midi'',
      MaskedSig ([CHR 0xFF, CHR 0xFF, CHR 0xFF, CHR 0xFF, CHR 0x00, CHR 0x00, CHR 0x00, CHR 0x00, CHR 0xFF, CHR 0xFF, CHR 0xFF, CHR 0xFF]) (''RIFF'' @ [CHR 0x00, CHR 0x00, CHR 0x00, CHR 0x00] @ ''AVI '') False ''video/avi'',
      MaskedSig ([CHR 0xFF, CHR 0xFF, CHR 0xFF, CHR 0xFF, CHR 0x00, CHR 0x00, CHR 0x00, CHR 0x00, CHR 0xFF, CHR 0xFF, CHR 0xFF, CHR 0xFF]) (''RIFF'' @ [CHR 0x00, CHR 0x00, CHR 0x00, CHR 0x00] @ ''WAVE'') False ''audio/wave'',
      Mp4Sig,
      ExactSig ([CHR 0x1A] @ ''E'' @ [CHR 0xDF, CHR 0xA3]) ''video/webm'',
      MaskedSig (replicate 34 (CHR 0x00) @ [CHR 0xFF, CHR 0xFF]) (replicate 34 (CHR 0x00) @ ''LP'') False ''application/vnd.ms-fontobject'',
      ExactSig ([CHR 0x00, CHR 0x01, CHR 0x00, CHR 0x00]) ''font/ttf'',
      ExactSig (''OTTO'') ''font/otf'',
      ExactSig (''ttcf'') ''font/collection'',
      ExactSig (''wOFF'') ''font/woff'',
      ExactSig (''wOF2'') ''font/woff2'',
      ExactSig ([CHR 0x1F, CHR 0x8B, CHR 0x08]) ''application/x-gzip'',
      ExactSig (''PK'' @ [CHR 0x03, CHR 0x04]) ''application/zip'',
      ExactSig (''Rar!'' @ [CHR 0x1A, CHR 0x07, CHR 0x00]) ''application/x-rar-compressed'',
      ExactSig (''Rar!'' @ [CHR 0x1A, CHR 0x07, CHR 0x01, CHR 0x00]) ''application/x-rar-compressed'',
      ExactSig ([CHR 0x00] @ ''asm'') ''application/wasm'',
      TextSig]"

fun first_match :: "sniffSig list \<Rightarrow> string \<Rightarrow> nat \<Rightarrow> string" where
  "first_match [] data firstNonWS = ''application/octet-stream''"
| "first_match (sig # sigs) data firstNonWS =
     (let ct = match_sig sig data firstNonWS in
      if ct \<noteq> [] then ct else first_match sigs data firstNonWS)"

definition DetectContentType :: "string \<Rightarrow> string" where
  "DetectContentType data =
     (let data = take 512 data;
          firstNonWS = length (takeWhile isWS data)
      in first_match sniffSignatures data firstNonWS)"

subsection \<open>Content sniffing and the scan\<close>

text \<open>
  \<^verbatim>\<open>getFileContentType\<close> returns the pair of the Go function: the type and the error.
  The count that \<^verbatim>\<open>Read\<close> returns is dropped, and the whole buffer of 512 bytes goes
  to the sniffer. The seek back to the start of a file cannot fail here.
\<close>

definition getFileContentType :: "node \<Rightarrow> string \<Rightarrow> string \<times> error option" where
  "getFileContentType fs filePath =
     (case os_Open fs filePath of
        Inl err \<Rightarrow> ([], Some (Wrap (''error opening '' @ filePath) err))
      | Inr file \<Rightarrow>
          (case file_Read file 512 of
             Inl err \<Rightarrow> ([], Some (Wrap (''error reading '' @ filePath) err))
           | Inr (n, buffer) \<Rightarrow> (DetectContentType buffer, None)))"


text \<open>
  What the program writes to its log, in order. The calls that \<^verbatim>\<open>run\<close> makes to
  \<^verbatim>\<open>os.MkdirAll\<close> and to \<^verbatim>\<open>extractZipFile\<close> are recorded in the same sequence, so
  that what was attempted for an archive can be read off it.
\<close>

datatype event =
    InfoStarting
  | DebugFoundZipFiles nat "string list"
  | InfoSkipping string string
  | ErrorCreatingDirectory string error
  | ErrorExtracting string error
  | ErrorGettingContentType string error
  | DebugExtractedFile string string
  | ErrorRunFailed error
  | ErrorSettingLogLevel error
  | ErrorSettingUpLogger error
  | CallMkdirAll string
  | CallExtractZipFile string string

text \<open>
  The function that \<^verbatim>\<open>findZipFiles\<close> hands to the walk. Its state is the slice
  \<^verbatim>\<open>zipFiles\<close> and the log. An error of the walk is returned wrapped; a directory
  is passed over; any other node is sniffed, a sniffing error is logged and not
  returned, and the path is appended when the type is \<^verbatim>\<open>application/zip\<close>. The walk
  never calls the function with neither a node nor an error, and that case is left
  open.
\<close>

fun visit :: "node \<Rightarrow> (string list \<times> event list) WalkFunc" where
  "visit fs path info (Some err) (zipFiles, log) =
     (Some (Wrap (''error walking '' @ path) err), (zipFiles, log))"
| "visit fs path (Some (DirNode l es)) None (zipFiles, log) = (None, (zipFiles, log))"
| "visit fs path (Some (FileNode r d)) None (zipFiles, log) =
     (case getFileContentType fs path of
        (contentType, err) \<Rightarrow>
          (None,
           (if contentType = ''application/zip'' then zipFiles @ [path] else zipFiles,
            case err of
              Some e \<Rightarrow> log @ [ErrorGettingContentType path e]
            | None \<Rightarrow> log)))"

definition findZipFiles :: "node \<Rightarrow> string \<Rightarrow> (error + string list) \<times> event list" where
  "findZipFiles fs directory =
     (case Walk fs directory (visit fs) ([], []) of
        (Some err, (zipFiles, log)) \<Rightarrow> (Inl (Wrap (''error walking '' @ directory) err), log)
      | (None, (zipFiles, log)) \<Rightarrow> (Inr zipFiles, log))"

subsection \<open>Extraction\<close>

text \<open>
  An entry of an archive as \<^verbatim>\<open>archive/zip\<close> presents it: its name, whether its
  \<^verbatim>\<open>FileInfo\<close> is a directory, and what \<^verbatim>\<open>Open\<close> gives: an error, or a stream,
  which is the bytes it delivers and the error that ends it early, if any. Reading an
  archive is a function of the bytes of the file; it is a parameter of the model.
\<close>

datatype zip_entry =
  ZipEntry (Name: string) (isDirEntry: bool) (opened: "error + string \<times> error option")

type_synonym zip_reader = "string \<Rightarrow> error + zip_entry list"

definition zip_OpenReader :: "zip_reader \<Rightarrow> node \<Rightarrow> string \<Rightarrow> error + zip_entry list" where
  "zip_OpenReader unzip fs path =
     (case os_Open fs path of
        Inl err \<Rightarrow> Inl err
      | Inr (DirNode l es) \<Rightarrow> Inl EISDIR
      | Inr (FileNode r d) \<Rightarrow> unzip d)"

text \<open>The loop of \<^verbatim>\<open>extractZipFile\<close> over the entries: the error, the file system
  afterwards and the log.\<close>

fun extract_entries ::
  "node \<Rightarrow> string \<Rightarrow> string \<Rightarrow> zip_entry list \<Rightarrow> error option \<times> node \<times> event list" where
  "extract_entries fs zipFilePath destDir [] = (None, fs, [])"
| "extract_entries fs zipFilePath destDir (file # files) =
     (let target = Join [destDir, Name file] in
      if isDirEntry file then
        (case os_MkdirAll fs target of
           Inl err \<Rightarrow> (Some (Wrap (''error creating directory '' @ target) err), fs, [])
         | Inr fs1 \<Rightarrow> extract_entries fs1 zipFilePath destDir files)
      else
        (case opened file of
           Inl err \<Rightarrow> (Some (Wrap (''error opening '' @ Name file) err), fs, [])
         | Inr (data, copy_err) \<Rightarrow>
             (case os_Create fs target of
                Inl err \<Rightarrow> (Some (Wrap (''error creating '' @ target) err), fs, [])
              | Inr fs1 \<Rightarrow>
                  (let fs2 = io_Copy fs1 target data in
                   case copy_err of
                     Some err \<Rightarrow> (Some (Wrap (''error copying '' @ target) err), fs2, [])
                   | None \<Rightarrow>
                       (case extract_entries fs2 zipFilePath destDir files of
                          (err, fs3, log) \<Rightarrow>
                            (err, fs3, DebugExtractedFile zipFilePath target # log))))))"

definition extractZipFile ::
  "zip_reader \<Rightarrow> node \<Rightarrow> string \<Rightarrow> string \<Rightarrow> error option \<times> node \<times> event list" where
  "extractZipFile unzip fs zipFilePath destDir =
     (case zip_OpenReader unzip fs zipFilePath of
        Inl err \<Rightarrow> (Some (Wrap (''error opening '' @ zipFilePath) err), fs, [])
      | Inr files \<Rightarrow> extract_entries fs zipFilePath destDir files)"

subsection \<open>Destination resolution\<close>

text \<open>A run-time panic of the Go program: it is not an error value, it unwinds the
  stack and ends the process.\<close>

datatype panic = SliceBoundsOutOfRange

text \<open>
  \<^verbatim>\<open>getExpandedPath\<close>. The slice expression \<^verbatim>\<open>zipFileName[:len(zipFileName)-4]\<close>
  panics when the upper bound is negative, that is when the base name has fewer than
  four bytes; otherwise it is the base name without its last four bytes.
\<close>

definition getExpandedPath :: "string \<Rightarrow> panic + string" where
  "getExpandedPath zipFilePath =
     (let baseDir = Dir zipFilePath;
          zipFileName = Base zipFilePath
      in if length zipFileName < 4 then Inl SliceBoundsOutOfRange
         else Inr (Join [baseDir, ''expanded'', take (length zipFileName - 4) zipFileName]))"


subsection \<open>The run\<close>

text \<open>How a Go function ends: it returns, or it panics.\<close>

datatype 'a outcome = Return 'a | Panic panic

text \<open>
  The loop of \<^verbatim>\<open>run\<close> over the archives found. Each \<^verbatim>\<open>continue\<close> and the end of
  the body go on with the next archive; only the panic of \<^verbatim>\<open>getExpandedPath\<close>
  leaves the loop. The result is how the loop ended, the file system afterwards and
  the log.
\<close>

fun run_loop :: "zip_reader \<Rightarrow> node \<Rightarrow> string list \<Rightarrow> unit outcome \<times> node \<times> event list" where
  "run_loop unzip fs [] = (Return (), fs, [])"
| "run_loop unzip fs (zipFile # zipFiles) =
     (case getExpandedPath zipFile of
        Inl p \<Rightarrow> (Panic p, fs, [])
      | Inr destDir \<Rightarrow>
          (case os_Stat fs destDir of
             Inr info \<Rightarrow>
               (case run_loop unzip fs zipFiles of
                  (r, fs', log) \<Rightarrow> (r, fs', InfoSkipping zipFile destDir # log))
           | Inl stat_err \<Rightarrow>
               (case os_MkdirAll fs destDir of
                  Inl err \<Rightarrow>
                    (case run_loop unzip fs zipFiles of
                       (r, fs', log) \<Rightarrow>
                         (r, fs', CallMkdirAll destDir # ErrorCreatingDirectory destDir err # log))
                | Inr fs1 \<Rightarrow>
                    (case extractZipFile unzip fs1 zipFile destDir of
                       (Some err, fs2, xlog) \<Rightarrow>
                         (case run_loop unzip fs2 zipFiles of
                            (r, fs', log) \<Rightarrow>
                              (r, fs',
                               CallMkdirAll destDir # CallExtractZipFile zipFile destDir # xlog @
                               ErrorExtracting zipFile err # log))
                     | (None, fs2, xlog) \<Rightarrow>
                         (case run_loop unzip fs2 zipFiles of
                            (r, fs', log) \<Rightarrow>
                              (r, fs',
                               CallMkdirAll destDir # CallExtractZipFile zipFile destDir # xlog @
                               log))))))"

text \<open>The options that \<^verbatim>\<open>run\<close> reads.\<close>

record opts =
  LogFormat :: string
  Verbose :: "bool list"
  DataDirectory :: string

definition run :: "zip_reader \<Rightarrow> opts \<Rightarrow> node \<Rightarrow> error option outcome \<times> node \<times> event list" where
  "run unzip os fs =
     (if DataDirectory os = [] then
        (Return (Some (Msg ''please provide a data directory using the --data-dir flag'')),
         fs, [InfoStarting])
      else
        (case findZipFiles fs (DataDirectory os) of
           (Inl err, flog) \<Rightarrow>
             (Return (Some (Wrap ''error finding zip files'' err)), fs, InfoStarting # flog)
         | (Inr zipFiles, flog) \<Rightarrow>
             (case run_loop unzip fs zipFiles of
                (Panic p, fs', log) \<Rightarrow>
                  (Panic p, fs',
                   InfoStarting # flog @ DebugFoundZipFiles (length zipFiles) zipFiles # log)
              | (Return u, fs', log) \<Rightarrow>
                  (Return None, fs',
                   InfoStarting # flog @ DebugFoundZipFiles (length zipFiles) zipFiles # log))))"

text \<open>
  \<^verbatim>\<open>Execute\<close>. The functions \<^verbatim>\<open>parseFlags\<close>, \<^verbatim>\<open>setLogLevel\<close> and \<^verbatim>\<open>setupLogger\<close>
  only set the process up; what they return is an input here: the options parsed or
  the error, and the errors of the two logging steps.
\<close>

definition Execute ::
  "zip_reader \<Rightarrow> error + opts \<Rightarrow> error option \<Rightarrow> error option \<Rightarrow> node \<Rightarrow>
     int outcome \<times> node \<times> event list" where
  "Execute unzip parsed setLogLevel setupLogger fs =
     (case parsed of
        Inl err \<Rightarrow> (Return 1, fs, [])
      | Inr os \<Rightarrow>
          (case setLogLevel of
             Some err \<Rightarrow> (Return 1, fs, [ErrorSettingLogLevel err])
           | None \<Rightarrow>
               (case setupLogger of
                  Some err \<Rightarrow> (Return 1, fs, [ErrorSettingUpLogger err])
                | None \<Rightarrow>
                    (case run unzip os fs of
                       (Panic p, fs', log) \<Rightarrow> (Panic p, fs', log)
                     | (Return (Some err), fs', log) \<Rightarrow> (Return 1, fs', log @ [ErrorRunFailed err])
                     | (Return None, fs', log) \<Rightarrow> (Return 0, fs', log)))))"

subsection \<open>What a scan visits\<close>

text \<open>The regular files below a node, in the order of the walk, each with the path
  the walk gives it; a directory that cannot be enumerated contributes none.\<close>

function tree_files :: "string \<Rightarrow> node \<Rightarrow> string list" where
  "tree_files path (FileNode r d) = [path]"
| "tree_files path (DirNode l es) =
     (case readDirNames (DirNode l es) of
        Inl err \<Rightarrow> []
      | Inr names \<Rightarrow>
          concat (map (\<lambda>name. case map_of es name of
                                 None \<Rightarrow> []
                               | Some n \<Rightarrow> tree_files (Join [path, name]) n) names))"
  by pat_completeness auto
termination
  by (relation "measure (\<lambda>(path, n). size n)") (auto dest: size_child)

text \<open>Whether every directory below a node, the node included, can be enumerated.\<close>

function dirs_listable :: "node \<Rightarrow> bool" where
  "dirs_listable (FileNode r d) = True"
| "dirs_listable (DirNode l es) =
     (l \<and> list_all (\<lambda>name. case map_of es name of
                               None \<Rightarrow> True
                             | Some n \<Rightarrow> dirs_listable n) (map fst es))"
  by pat_completeness auto
termination
  by (relation "measure size") (auto dest: size_child)

text \<open>The files that the sniffer takes for ZIP archives, and the log records of
  the sniffing errors.\<close>

definition is_zip :: "node \<Rightarrow> string \<Rightarrow> bool" where
  "is_zip fs path = (fst (getFileContentType fs path) = ''application/zip'')"

definition sniff_log :: "node \<Rightarrow> string list \<Rightarrow> event list" where
  "sniff_log fs paths =
     concat (map (\<lambda>path. case snd (getFileContentType fs path) of
                            Some e \<Rightarrow> [ErrorGettingContentType path e]
                          | None \<Rightarrow> []) paths)"

text \<open>One round of the loop of \<^verbatim>\<open>walk\<close> over the names of a directory, with the
  function of \<^verbatim>\<open>findZipFiles\<close>.\<close>

abbreviation (input) walk_step ::
  "node \<Rightarrow> string \<Rightarrow> (string \<times> node) list \<Rightarrow> string \<Rightarrow>
     error option \<times> string list \<times> event list \<Rightarrow> error option \<times> string list \<times> event list" where
  "walk_step fs path es \<equiv>
     (\<lambda>name acc.
        case acc of
          (Some e, st) \<Rightarrow> (Some e, st)
        | (None, st) \<Rightarrow>
            (case map_of es name of
               None \<Rightarrow> visit fs (Join [path, name]) None (Some ENOENT) st
             | Some fileInfo \<Rightarrow> walk (Join [path, name]) fileInfo (visit fs) st))"

subsection \<open>Later runs\<close>

text \<open>Whether \<^verbatim>\<open>os.Stat\<close> finds something at a path.\<close>

definition present :: "node \<Rightarrow> string \<Rightarrow> bool" where
  "present fs path = (case os_Stat fs path of Inr info \<Rightarrow> True | Inl err \<Rightarrow> False)"

text \<open>Running the program several times, one run after the other on what the run
  before left on the disk, whatever the options of each run and however it ended:
  the file system at the end and the logs, concatenated.\<close>

fun runs :: "zip_reader \<Rightarrow> opts list \<Rightarrow> node \<Rightarrow> node \<times> event list" where
  "runs unzip [] fs = (fs, [])"
| "runs unzip (os # oss) fs =
     (case run unzip os fs of
        (r, fs1, log1) \<Rightarrow> (case runs unzip oss fs1 of (fs2, log2) \<Rightarrow> (fs2, log1 @ log2)))"

section \<open>Properties\<close>

subsection \<open>The sniffer and the ZIP signature\<close>

text \<open>The type that a signature reports when it matches.\<close>

fun ct_of :: "sniffSig \<Rightarrow> string" where
  "ct_of (HtmlSig h) = ''text/html; charset=utf-8''"
| "ct_of (MaskedSig msk pat skipWS ct) = ct"
| "ct_of (ExactSig sig ct) = ct"
| "ct_of Mp4Sig = ''video/mp4''"
| "ct_of TextSig = ''text/plain; charset=utf-8''"

abbreviation zip_magic :: string where
  "zip_magic \<equiv> [CHR ''P'', CHR ''K'', CHR 0x03, CHR 0x04]"

lemma and_byte_zero [simp]: "and_byte b (CHR 0x00) = CHR 0x00"
  by (cases b) simp

lemma and_byte_FF [simp]: "and_byte b (CHR 0xFF) = b"
  by (cases b) simp

lemma masked_zero_prefix:
  "n \<le> length d \<Longrightarrow>
   list_all (\<lambda>(pb, db, mb). and_byte db mb = pb)
     (zip (replicate n (CHR 0x00) @ p) (zip d (replicate n (CHR 0x00) @ m)))
   = list_all (\<lambda>(pb, db, mb). and_byte db mb = pb) (zip p (zip (drop n d) m))"
proof (induction n arbitrary: d)
  case 0
  then show ?case by simp
next
  case (Suc n)
  then obtain x xs where "d = x # xs" by (cases d) auto
  with Suc show ?case by simp
qed

lemma be_uint32_zip_magic:
  "be_uint32 (CHR ''P'' # CHR ''K'' # CHR 0x03 # CHR 0x04 # rest) = 1347093252"
  by (simp add: be_uint32_def)

lemma drop_30_two:
  assumes "32 \<le> length rest"
  shows "drop 30 rest = rest ! 30 # rest ! 31 # drop 32 rest"
proof -
  have a: "rest ! 30 # drop (Suc 30) rest = drop 30 rest"
    by (rule Cons_nth_drop_Suc) (use assms in simp)
  have b: "rest ! 31 # drop (Suc 31) rest = drop 31 rest"
    by (rule Cons_nth_drop_Suc) (use assms in simp)
  show ?thesis using a [symmetric] b [symmetric] by simp
qed

lemma DetectContentType_zip_magic:
  assumes len: "length rest = 508"
    and lp: "\<not> (rest ! 30 = CHR ''L'' \<and> rest ! 31 = CHR ''P'')"
  shows "DetectContentType (CHR ''P'' # CHR ''K'' # CHR 0x03 # CHR 0x04 # rest) = ''application/zip''"
proof -
  let ?d = "CHR ''P'' # CHR ''K'' # CHR 0x03 # CHR 0x04 # rest"
  have d30: "drop 30 rest = rest ! 30 # rest ! 31 # drop 32 rest"
    using len by (intro drop_30_two) simp
  have eot: "\<not> list_all (\<lambda>(pb, db, mb). and_byte db mb = pb)
       (zip (replicate 34 (CHR 0x00) @ ''LP'')
         (zip ?d (replicate 34 (CHR 0x00) @ [CHR 0xFF, CHR 0xFF])))"
    using len lp by (subst masked_zero_prefix) (simp_all add: d30)
  have t: "take 512 ?d = ?d" using len by simp
  have ws: "takeWhile isWS ?d = []" by (simp add: isWS_def)
  show ?thesis
    unfolding DetectContentType_def Let_def t ws sniffSignatures_def
    using len eot by (simp add: be_uint32_zip_magic Let_def)
qed

lemma match_sig_ct: "match_sig sig d n = [] \<or> match_sig sig d n = ct_of sig"
  by (cases sig) (simp_all add: Let_def)

lemma first_match_zip:
  "first_match sigs d n = ''application/zip'' \<Longrightarrow>
     \<exists>sig\<in>set sigs. match_sig sig d n = ''application/zip''"
  by (induction sigs) (auto simp: Let_def split: if_splits)

lemma sniffSignatures_zip:
  "sig \<in> set sniffSignatures \<Longrightarrow> ct_of sig = ''application/zip'' \<Longrightarrow>
     sig = ExactSig zip_magic ''application/zip''"
  by (auto simp: sniffSignatures_def)

lemma DetectContentType_zip_prefix:
  assumes "DetectContentType data = ''application/zip''"
  shows "take 4 data = zip_magic"
proof -
  from assms obtain sig n where sig: "sig \<in> set sniffSignatures"
    and m: "match_sig sig (take 512 data) n = ''application/zip''"
    unfolding DetectContentType_def Let_def by (blast dest: first_match_zip)
  from m match_sig_ct [of sig "take 512 data" n] have "ct_of sig = ''application/zip''"
    by auto
  with sig have "sig = ExactSig zip_magic ''application/zip''"
    by (rule sniffSignatures_zip)
  with m have "take (length zip_magic) (take 512 data) = zip_magic"
    by (simp split: if_splits)
  moreover have "length zip_magic = 4" by simp
  ultimately have "take 4 (take 512 data) = zip_magic" by metis
  then show ?thesis by simp
qed

lemma length_read_into [simp]: "length (read_into n d) = n"
  by (simp add: read_into_def)

lemma DetectContentType_buffer_zip:
  assumes m: "take 4 d = zip_magic" and len: "length d \<le> 34"
  shows "DetectContentType (read_into 512 d) = ''application/zip''"
proof -
  from m obtain rest where d: "d = CHR ''P'' # CHR ''K'' # CHR 0x03 # CHR 0x04 # rest"
    by (cases d; simp; cases "tl d"; simp; cases "tl (tl d)"; simp; cases "tl (tl (tl d))"; simp)
  let ?r = "rest @ replicate (508 - length rest) (CHR 0x00)"
  have buf: "read_into 512 d = CHR ''P'' # CHR ''K'' # CHR 0x03 # CHR 0x04 # ?r"
    using len by (simp add: read_into_def d)
  have l: "length ?r = 508" using len d by simp
  have "?r ! 30 = CHR 0x00" using len d by (simp add: nth_append)
  then have lp: "\<not> (?r ! 30 = CHR ''L'' \<and> ?r ! 31 = CHR ''P'')" by simp
  show ?thesis unfolding buf using l lp by (rule DetectContentType_zip_magic)
qed

lemma DetectContentType_buffer_not_zip:
  assumes "take 4 d \<noteq> zip_magic"
  shows "DetectContentType (read_into 512 d) \<noteq> ''application/zip''"
proof
  assume "DetectContentType (read_into 512 d) = ''application/zip''"
  then have t: "take 4 (read_into 512 d) = zip_magic" by (rule DetectContentType_zip_prefix)
  have "take 4 d = zip_magic"
  proof (cases "4 \<le> length d")
    case True
    with t show ?thesis by (simp add: read_into_def)
  next
    case False
    then have "length d < 4" by simp
    then have "read_into 512 d ! 3 = CHR 0x00"
      by (simp add: read_into_def nth_append)
    moreover from t have "take 4 (read_into 512 d) ! 3 = CHR 0x04" by simp
    then have "read_into 512 d ! 3 = CHR 0x04" by simp
    ultimately show ?thesis by simp
  qed
  with assms show False by contradiction
qed


subsection \<open>The scan\<close>

lemma sniff_log_append [simp]: "sniff_log fs (xs @ ys) = sniff_log fs xs @ sniff_log fs ys"
  by (simp add: sniff_log_def)

lemma sniff_log_Nil [simp]: "sniff_log fs [] = []"
  by (simp add: sniff_log_def)

lemma visit_file:
  "visit fs path (Some (FileNode r d)) None s =
     (None, (fst s @ filter (is_zip fs) [path], snd s @ sniff_log fs [path]))"
  by (cases s) (auto simp: is_zip_def sniff_log_def split: prod.splits option.splits)

lemma visit_dir: "visit fs path (Some (DirNode l es)) None s = (None, s)"
  by (cases s) simp

lemma visit_err: "\<exists>e. visit fs path info (Some err) s = (Some e, s)"
  by (cases s) simp

lemma fold_walk_step_error:
  "fold (walk_step fs path es) names (Some e, st) = (Some e, st)"
  by (induction names) auto

lemma map_of_fst_Some: "name \<in> fst ` set es \<Longrightarrow> \<exists>n. map_of es name = Some n"
  by (metis domD dom_map_of_conv_image_fst)

lemma walk_visit_ok:
  "dirs_listable n \<Longrightarrow>
     walk path n (visit fs) s =
       (None, (fst s @ filter (is_zip fs) (tree_files path n),
               snd s @ sniff_log fs (tree_files path n)))"
proof (induction n arbitrary: path s rule: measure_induct_rule [where f = size])
  case (less n)
  show ?case
  proof (cases n)
    case (FileNode r d)
    then show ?thesis by (simp add: visit_file)
  next
    case (DirNode l es)
    with less.prems have l: "l"
      and kids: "\<And>name m. name \<in> fst ` set es \<Longrightarrow> map_of es name = Some m \<Longrightarrow> dirs_listable m"
      by (auto simp: list_all_iff split: option.splits)
    let ?sub = "\<lambda>name. case map_of es name of
                         None \<Rightarrow> []
                       | Some m \<Rightarrow> tree_files (Join [path, name]) m"
    have step: "set names \<subseteq> fst ` set es \<Longrightarrow>
        fold (walk_step fs path es) names (None, st) =
          (None, (fst st @ filter (is_zip fs) (concat (map ?sub names)),
                  snd st @ sniff_log fs (concat (map ?sub names))))" for names st
    proof (induction names arbitrary: st)
      case Nil
      then show ?case by simp
    next
      case (Cons name names)
      from Cons.prems have "name \<in> fst ` set es" by simp
      from map_of_fst_Some [OF this] obtain m where m: "map_of es name = Some m" ..
      then have "size m < size n" using DirNode by (auto dest: size_child)
      moreover have "dirs_listable m" using kids m Cons.prems by auto
      ultimately have w: "walk (Join [path, name]) m (visit fs) st =
          (None, (fst st @ filter (is_zip fs) (tree_files (Join [path, name]) m),
                  snd st @ sniff_log fs (tree_files (Join [path, name]) m)))"
        by (rule less.IH)
      from Cons.prems have "set names \<subseteq> fst ` set es" by simp
      from Cons.IH [OF this] w m show ?case by simp
    qed
    have "set (sort (map fst es)) \<subseteq> fst ` set es" by simp
    from step [OF this] DirNode l show ?thesis
      by (simp add: visit_dir)
  qed
qed

lemma walk_visit_fail:
  "\<not> dirs_listable n \<Longrightarrow> \<exists>e st. walk path n (visit fs) s = (Some e, st)"
proof (induction n arbitrary: path s rule: measure_induct_rule [where f = size])
  case (less n)
  show ?case
  proof (cases n)
    case (FileNode r d)
    with less.prems show ?thesis by simp
  next
    case (DirNode l es)
    show ?thesis
    proof (cases l)
      case False
      with DirNode visit_err [of fs path "Some (DirNode l es)" EACCES s] show ?thesis
        by auto
    next
      case True
      with less.prems DirNode obtain bad m where bad: "bad \<in> fst ` set es"
        and m: "map_of es bad = Some m" and nl: "\<not> dirs_listable m"
        by (auto simp: list_all_iff split: option.splits)
      have step: "bad \<in> set names \<Longrightarrow>
          \<exists>e st'. fold (walk_step fs path es) names (None, st) = (Some e, st')" for names st
      proof (induction names arbitrary: st)
        case Nil
        then show ?case by simp
      next
        case (Cons name names)
        obtain r st1 where r: "walk_step fs path es name (None, st) = (r, st1)"
          by (cases "walk_step fs path es name (None, st)") auto
        show ?case
        proof (cases r)
          case (Some e)
          with r show ?thesis by (simp add: fold_walk_step_error del: split_paired_Ex)
        next
          case None
          have "name \<noteq> bad"
          proof
            assume "name = bad"
            moreover have "size m < size n" using m DirNode by (auto dest: size_child)
            from less.IH [OF this nl, of "Join [path, bad]" st]
            obtain e st' where "walk (Join [path, bad]) m (visit fs) st = (Some e, st')"
              by blast
            ultimately show False using r None m by simp
          qed
          with Cons.prems have "bad \<in> set names" by simp
          from Cons.IH [OF this, of st1] r None show ?thesis by simp
        qed
      qed
      have "bad \<in> set (sort (map fst es))" using bad by simp
      from step [OF this] DirNode True show ?thesis
        by (simp add: visit_dir)
    qed
  qed
qed

lemma findZipFiles_ok:
  "os_Stat fs directory = Inr info \<Longrightarrow> dirs_listable info \<Longrightarrow>
     findZipFiles fs directory =
       (Inr (filter (is_zip fs) (tree_files directory info)),
        sniff_log fs (tree_files directory info))"
  by (simp add: findZipFiles_def Walk_def walk_visit_ok)

lemma findZipFiles_fail:
  assumes "os_Stat fs directory = Inr info" and "\<not> dirs_listable info"
  shows "\<exists>err log. findZipFiles fs directory = (Inl err, log)"
proof -
  from walk_visit_fail [OF assms(2), of directory fs "([], [])"]
  obtain e st where "walk directory info (visit fs) ([], []) = (Some e, st)" by blast
  with assms(1) show ?thesis
    by (cases st) (simp add: findZipFiles_def Walk_def)
qed

lemma findZipFiles_missing:
  "os_Stat fs directory = Inl e \<Longrightarrow> \<exists>err. findZipFiles fs directory = (Inl err, [])"
  by (simp add: findZipFiles_def Walk_def)


subsection \<open>Nothing is ever removed\<close>

text \<open>The program creates directories and writes files; what exists at a path
  keeps existing through every operation, every extraction and every run.\<close>

lemma map_of_update:
  "map_of (AList.update k v al) k' = (if k' = k then Some v else map_of al k')"
  by (simp add: update_conv')

lemma mkdirAll_at_DirNode:
  "mkdirAll_at n cs = Inr n' \<Longrightarrow> \<exists>l es. n = DirNode l es"
  by (cases n) auto

lemma lookup_mkdirAll_mono:
  "mkdirAll_at n cs = Inr n' \<Longrightarrow> lookup n ps = Inr m \<Longrightarrow> \<exists>m'. lookup n' ps = Inr m'"
proof (induction cs arbitrary: n n' ps m)
  case Nil
  then show ?case by (cases n) auto
next
  case (Cons c cs)
  from Cons.prems(1) obtain l es where n: "n = DirNode l es"
    by (blast dest: mkdirAll_at_DirNode)
  let ?sub = "case map_of es c of None \<Rightarrow> DirNode True [] | Some k \<Rightarrow> k"
  from Cons.prems(1) n obtain k where k: "mkdirAll_at ?sub cs = Inr k"
    and n': "n' = DirNode l (AList.update c k es)"
    by (auto split: sum.splits)
  show ?case
  proof (cases ps)
    case Nil
    then show ?thesis by simp
  next
    case (Cons p ps')
    with Cons.prems(2) n obtain m1 where m1: "map_of es p = Some m1" and l1: "lookup m1 ps' = Inr m"
      by (auto split: option.splits sum.splits)
    show ?thesis
    proof (cases "p = c")
      case True
      with m1 k have "mkdirAll_at m1 cs = Inr k" by simp
      from Cons.IH [OF this l1] obtain m' where "lookup k ps' = Inr m'" ..
      with True n' Cons show ?thesis by (simp add: map_of_update)
    next
      case False
      with m1 l1 n' Cons show ?thesis by (simp add: map_of_update)
    qed
  qed
qed

lemma lookup_mkdirAll_self:
  "mkdirAll_at n cs = Inr n' \<Longrightarrow> \<exists>l es. lookup n' cs = Inr (DirNode l es)"
proof (induction cs arbitrary: n n')
  case Nil
  then show ?case by (cases n) auto
next
  case (Cons c cs)
  from Cons.prems(1) obtain l es where n: "n = DirNode l es"
    by (blast dest: mkdirAll_at_DirNode)
  let ?sub = "case map_of es c of None \<Rightarrow> DirNode True [] | Some k \<Rightarrow> k"
  from Cons.prems(1) n obtain k where k: "mkdirAll_at ?sub cs = Inr k"
    and n': "n' = DirNode l (AList.update c k es)"
    by (auto split: sum.splits)
  from Cons.IH [OF k] n' show ?case by (simp add: map_of_update)
qed

lemma lookup_write_mono:
  "write_at n cs data = Inr n' \<Longrightarrow> lookup n ps = Inr m \<Longrightarrow> \<exists>m'. lookup n' ps = Inr m'"
proof (induction n cs data arbitrary: n' ps m rule: write_at.induct)
  case (1 r d data)
  then show ?case by (cases ps) (auto split: if_splits)
next
  case (2 l es data)
  then show ?case by simp
next
  case (3 r d c cs data)
  then show ?case by simp
next
  case (4 l es c cs data)
  show ?case
  proof (cases ps)
    case Nil
    then show ?thesis by simp
  next
    case (Cons p ps')
    with "4.prems"(2) obtain m1 where m1: "map_of es p = Some m1" and l1: "lookup m1 ps' = Inr m"
      by (auto split: option.splits sum.splits)
    show ?thesis
    proof (cases "p = c")
      case True
      with m1 "4.prems"(1) obtain k where k: "write_at m1 cs data = Inr k"
        and n': "n' = DirNode l (AList.update c k es)"
        by (auto split: sum.splits)
      from "4.IH" [OF _ k l1] m1 True obtain m' where "lookup k ps' = Inr m'" by auto
      with True n' Cons show ?thesis by (simp add: map_of_update)
    next
      case False
      from "4.prems"(1) obtain k where n': "n' = DirNode l (AList.update c k es)"
        by (auto split: option.splits sum.splits if_splits)
      with False m1 l1 Cons show ?thesis by (simp add: map_of_update)
    qed
  qed
qed

lemma lookup_write_self:
  "write_at n cs data = Inr n' \<Longrightarrow> \<exists>r. lookup n' cs = Inr (FileNode r data)"
  by (induction n cs data arbitrary: n' rule: write_at.induct)
     (auto simp: map_of_update split: option.splits sum.splits if_splits)

lemma present_MkdirAll:
  "os_MkdirAll fs q = Inr fs' \<Longrightarrow> present fs p \<Longrightarrow> present fs' p"
  by (auto simp: os_MkdirAll_def present_def os_Stat_def split: if_splits sum.splits
           dest: lookup_mkdirAll_mono)

lemma present_MkdirAll_self:
  "os_MkdirAll fs q = Inr fs' \<Longrightarrow> present fs' q"
  by (auto simp: os_MkdirAll_def present_def os_Stat_def split: if_splits sum.splits
           dest: lookup_mkdirAll_self)

lemma present_Create:
  "os_Create fs q = Inr fs' \<Longrightarrow> present fs p \<Longrightarrow> present fs' p"
  by (auto simp: os_Create_def present_def os_Stat_def split: if_splits sum.splits
           dest: lookup_write_mono)

lemma present_Copy:
  "present fs p \<Longrightarrow> present (io_Copy fs q data) p"
  by (auto simp: io_Copy_def present_def os_Stat_def split: if_splits sum.splits
           dest: lookup_write_mono)

lemma present_extract_entries:
  "extract_entries fs z d files = (err, fs', log) \<Longrightarrow> present fs p \<Longrightarrow> present fs' p"
proof (induction files arbitrary: fs err fs' log)
  case Nil
  then show ?case by simp
next
  case (Cons entry files)
  then show ?case
    by (auto simp: Let_def split: if_splits sum.splits prod.splits option.splits
             dest: present_MkdirAll)
       (meson present_Create present_Copy)+
qed

lemma extract_entries_log:
  "extract_entries fs z d files = (err, fs', log) \<Longrightarrow> e \<in> set log \<Longrightarrow>
     \<exists>a b. e = DebugExtractedFile a b"
proof (induction files arbitrary: fs err fs' log)
  case Nil
  then show ?case by simp
next
  case (Cons entry files)
  then show ?case
    by (fastforce simp: Let_def split: if_splits sum.splits prod.splits option.splits)
qed

lemma present_extractZipFile:
  "extractZipFile unzip fs z d = (err, fs', log) \<Longrightarrow> present fs p \<Longrightarrow> present fs' p"
  by (auto simp: extractZipFile_def split: sum.splits dest: present_extract_entries)

lemma extractZipFile_log:
  "extractZipFile unzip fs z d = (err, fs', log) \<Longrightarrow> e \<in> set log \<Longrightarrow>
     \<exists>a b. e = DebugExtractedFile a b"
  by (auto simp: extractZipFile_def split: sum.splits dest: extract_entries_log)

lemma present_run_loop:
  "run_loop unzip fs zs = (r, fs', log) \<Longrightarrow> present fs p \<Longrightarrow> present fs' p"
proof (induction zs arbitrary: fs r fs' log)
  case Nil
  then show ?case by simp
next
  case (Cons z zs)
  show ?case
  proof (cases "getExpandedPath z")
    case (Inl pn)
    with Cons.prems show ?thesis by simp
  next
    case (Inr dest)
    show ?thesis
    proof (cases "os_Stat fs dest")
      case (Inr info)
      with \<open>getExpandedPath z = Inr dest\<close> Cons.prems Cons.IH [of fs] show ?thesis
        by (auto split: prod.splits)
    next
      case (Inl e)
      note st = this
      show ?thesis
      proof (cases "os_MkdirAll fs dest")
        case (Inl e')
        with st \<open>getExpandedPath z = Inr dest\<close> Cons.prems Cons.IH [of fs] show ?thesis
          by (auto split: prod.splits)
      next
        case (Inr fs1)
        obtain err fs2 xlog where ex: "extractZipFile unzip fs1 z dest = (err, fs2, xlog)"
          by (cases "extractZipFile unzip fs1 z dest") auto
        have "present fs1 p" using Inr Cons.prems(2) by (rule present_MkdirAll)
        with ex have "present fs2 p" by (rule present_extractZipFile)
        with st Inr ex \<open>getExpandedPath z = Inr dest\<close> Cons.prems Cons.IH [of fs2] show ?thesis
          by (auto split: prod.splits option.splits)
      qed
    qed
  qed
qed

lemma present_run:
  "run unzip os fs = (r, fs', log) \<Longrightarrow> present fs p \<Longrightarrow> present fs' p"
  by (auto simp: run_def split: if_splits prod.splits sum.splits outcome.splits
           dest: present_run_loop)

lemma present_runs:
  "runs unzip oss fs = (fs', log) \<Longrightarrow> present fs p \<Longrightarrow> present fs' p"
  by (induction oss arbitrary: fs fs' log)
     (auto split: prod.splits dest: present_run)

lemma run_loop_present_no_call:
  assumes "getExpandedPath z = Inr dest"
  shows "run_loop unzip fs zs = (r, fs', log) \<Longrightarrow> present fs dest \<Longrightarrow>
           CallExtractZipFile z d \<notin> set log \<and> CallMkdirAll dest \<notin> set log"
proof (induction zs arbitrary: fs r fs' log)
  case Nil
  then show ?case by simp
next
  case (Cons z' zs)
  show ?case
  proof (cases "getExpandedPath z'")
    case (Inl pn)
    with Cons.prems show ?thesis by simp
  next
    case (Inr dest')
    note gp = this
    show ?thesis
    proof (cases "os_Stat fs dest'")
      case (Inr info)
      with gp Cons.prems Cons.IH [of fs] show ?thesis
        by (auto split: prod.splits)
    next
      case (Inl e)
      note st = this
      with Cons.prems(2) have ne: "dest' \<noteq> dest" by (auto simp: present_def)
      with gp assms have nz: "z' \<noteq> z" by auto
      show ?thesis
      proof (cases "os_MkdirAll fs dest'")
        case (Inl e')
        with st gp ne Cons.prems Cons.IH [of fs] show ?thesis
          by (auto split: prod.splits)
      next
        case (Inr fs1)
        obtain err fs2 xlog where ex: "extractZipFile unzip fs1 z' dest' = (err, fs2, xlog)"
          by (cases "extractZipFile unzip fs1 z' dest'") auto
        have "present fs1 dest" using Inr Cons.prems(2) by (rule present_MkdirAll)
        with ex have p2: "present fs2 dest" by (rule present_extractZipFile)
        have xl: "CallExtractZipFile z d \<notin> set xlog \<and> CallMkdirAll dest \<notin> set xlog"
          using extractZipFile_log [OF ex] by auto
        obtain r2 fs3 log2 where rl: "run_loop unzip fs2 zs = (r2, fs3, log2)"
          by (cases "run_loop unzip fs2 zs") auto
        from Cons.IH [OF rl p2] xl st Inr ex gp ne nz rl Cons.prems(1) show ?thesis
          by (auto split: option.splits)
      qed
    qed
  qed
qed


subsection \<open>How the loop of the run ends\<close>

lemma fst_run_loop_Cons:
  "getExpandedPath z = Inr dest \<Longrightarrow>
     \<exists>fs'. fst (run_loop unzip fs (z # zs)) = fst (run_loop unzip fs' zs)"
  by (auto split: sum.splits prod.splits option.splits; metis fst_conv)

lemma run_loop_panics:
  "z \<in> set zs \<Longrightarrow> length (Base z) < 4 \<Longrightarrow>
     fst (run_loop unzip fs zs) = Panic SliceBoundsOutOfRange"
proof (induction zs arbitrary: fs)
  case Nil
  then show ?case by simp
next
  case (Cons z' zs)
  show ?case
  proof (cases "getExpandedPath z'")
    case (Inl pn)
    then show ?thesis by (cases pn) simp
  next
    case (Inr dest)
    then have "z' \<noteq> z" using Cons.prems(2) by (auto simp: getExpandedPath_def Let_def)
    with Cons.prems have "z \<in> set zs" by simp
    then have ih: "\<And>fs. fst (run_loop unzip fs zs) = Panic SliceBoundsOutOfRange"
      using Cons.IH Cons.prems(2) by blast
    from fst_run_loop_Cons [OF Inr] ih show ?thesis by metis
  qed
qed

lemma run_loop_returns:
  "\<forall>z\<in>set zs. 4 \<le> length (Base z) \<Longrightarrow> fst (run_loop unzip fs zs) = Return ()"
proof (induction zs arbitrary: fs)
  case Nil
  then show ?case by simp
next
  case (Cons z zs)
  then have ih: "\<And>fs. fst (run_loop unzip fs zs) = Return ()" by simp
  from Cons.prems obtain dest where "getExpandedPath z = Inr dest"
    by (auto simp: getExpandedPath_def Let_def)
  from fst_run_loop_Cons [OF this] ih show ?case by metis
qed

lemma run_loop_append:
  "run_loop unzip fs (xs @ ys) =
     (case run_loop unzip fs xs of
        (Panic p, fs1, log1) \<Rightarrow> (Panic p, fs1, log1)
      | (Return u, fs1, log1) \<Rightarrow>
          (case run_loop unzip fs1 ys of (r, fs2, log2) \<Rightarrow> (r, fs2, log1 @ log2)))"
  by (induction xs arbitrary: fs)
     (auto split: sum.splits prod.splits option.splits outcome.splits)

lemma run_loop_skip:
  "getExpandedPath z = Inr dest \<Longrightarrow> os_Stat fs dest = Inr info \<Longrightarrow>
     run_loop unzip fs (z # post) =
       (case run_loop unzip fs post of (r, fs', log) \<Rightarrow> (r, fs', InfoSkipping z dest # log))"
  by simp

lemma run_loop_all_present:
  "\<forall>z\<in>set zs. \<exists>dest info. getExpandedPath z = Inr dest \<and> os_Stat fs dest = Inr info \<Longrightarrow>
     run_loop unzip fs zs =
       (Return (), fs, map (\<lambda>z. InfoSkipping z (projr (getExpandedPath z))) zs)"
  by (induction zs) auto


subsection \<open>What the log can hold\<close>

lemma sniff_log_events: "e \<in> set (sniff_log fs paths) \<Longrightarrow> \<exists>p x. e = ErrorGettingContentType p x"
  by (auto simp: sniff_log_def split: option.splits)

lemma walk_visit_keeps:
  assumes ev: "\<And>p x. ev \<noteq> ErrorGettingContentType p x"
  shows "ev \<notin> set (snd s) \<Longrightarrow> ev \<notin> set (snd (snd (walk path n (visit fs) s)))"
proof (induction n arbitrary: path s rule: measure_induct_rule [where f = size])
  case (less n)
  show ?case
  proof (cases n)
    case (FileNode r d)
    have "ev \<notin> set (sniff_log fs [path])"
      using ev sniff_log_events [of ev fs "[path]"] by blast
    with FileNode less.prems show ?thesis
      by (simp add: visit_file)
  next
    case (DirNode l es)
    have step: "ev \<notin> set (snd (snd acc)) \<Longrightarrow>
        ev \<notin> set (snd (snd (fold (walk_step fs path es) names acc)))" for names acc
    proof (induction names arbitrary: acc)
      case Nil
      then show ?case by simp
    next
      case (Cons name names)
      obtain r st where acc: "acc = (r, st)" by (cases acc) auto
      have "ev \<notin> set (snd (snd (walk_step fs path es name acc)))"
      proof (cases r)
        case (Some e)
        with acc Cons.prems show ?thesis by simp
      next
        case None
        note r = this
        show ?thesis
        proof (cases "map_of es name")
          case None
          with visit_err [of fs "Join [path, name]" None ENOENT st] acc r Cons.prems
          show ?thesis by auto
        next
          case (Some m)
          then have "size m < size n" using DirNode by (auto dest: size_child)
          from less.IH [OF this, of st "Join [path, name]"] acc r Some Cons.prems
          show ?thesis by simp
        qed
      qed
      from Cons.IH [OF this] show ?case by simp
    qed
    show ?thesis
    proof (cases l)
      case False
      with DirNode visit_err [of fs path "Some (DirNode l es)" EACCES s] less.prems
      show ?thesis by auto
    next
      case True
      with DirNode less.prems step [of "(None, s)" "sort (map fst es)"] show ?thesis
        by (simp add: visit_dir)
    qed
  qed
qed

lemma findZipFiles_keeps:
  assumes "\<And>p x. ev \<noteq> ErrorGettingContentType p x"
  shows "ev \<notin> set (snd (findZipFiles fs directory))"
proof (cases "os_Stat fs directory")
  case (Inl e)
  then show ?thesis by (simp add: findZipFiles_def Walk_def)
next
  case (Inr info)
  from walk_visit_keeps [OF assms, of "([], [])" directory info fs] Inr show ?thesis
    by (auto simp: findZipFiles_def Walk_def split: prod.splits option.splits)
qed

lemma run_present_no_call:
  assumes gp: "getExpandedPath z = Inr dest" and pr: "present fs dest"
  shows "CallExtractZipFile z d \<notin> set (snd (snd (run unzip os fs)))"
proof -
  have f: "CallExtractZipFile z d \<notin> set (snd (findZipFiles fs (DataDirectory os)))"
    by (rule findZipFiles_keeps) simp
  have l: "CallExtractZipFile z d \<notin> set (snd (snd (run_loop unzip fs zs)))" for zs
    using run_loop_present_no_call [OF gp _ pr, of unzip zs _ _ _ d]
    by (cases "run_loop unzip fs zs") auto
  show ?thesis
    using f l
    by (auto simp: run_def split: prod.splits sum.splits outcome.splits)
       (metis snd_conv)+
qed

lemma runs_present_no_call:
  assumes gp: "getExpandedPath z = Inr dest"
  shows "present fs dest \<Longrightarrow> CallExtractZipFile z d \<notin> set (snd (runs unzip oss fs))"
proof (induction oss arbitrary: fs)
  case Nil
  then show ?case by simp
next
  case (Cons os oss)
  obtain r fs1 log1 where r: "run unzip os fs = (r, fs1, log1)"
    by (cases "run unzip os fs") auto
  with run_present_no_call [OF gp Cons.prems, of d unzip os]
  have a: "CallExtractZipFile z d \<notin> set log1" by simp
  from r Cons.prems have "present fs1 dest" by (rule present_run)
  from Cons.IH [OF this] a r show ?case
    by (auto split: prod.splits)
qed


subsection \<open>Destination resolution\<close>

text \<open>
  C5. For an archive path whose base name is some stem followed by \<open>.zip\<close>, the
  destination resolver returns exactly the join of the path's parent directory, the
  fixed name \<open>expanded\<close> and that stem; being a function of the path alone, it gives the
  same destination every time.
\<close>

theorem getExpandedPath_zip_suffix:
  "Base zipFilePath = stem @ ''.zip'' \<Longrightarrow>
     getExpandedPath zipFilePath = Inr (Join [Dir zipFilePath, ''expanded'', stem])"
  by (simp add: getExpandedPath_def Let_def)

theorem getExpandedPath_zip_suffix_witness:
  "Base ''foo/bar.zip'' = ''bar'' @ ''.zip'' \<and> Dir ''foo/bar.zip'' = ''foo'' \<and>
   getExpandedPath ''foo/bar.zip'' = Inr ''foo/expanded/bar''"
proof -
  have b: "Base ''foo/bar.zip'' = ''bar'' @ ''.zip''"
    by (simp add: Base_def Let_def)
  have d: "Dir ''foo/bar.zip'' = ''foo''"
    by (simp add: Dir_def Clean_def Let_def)
  have j: "Join [''foo'', ''expanded'', ''bar''] = ''foo/expanded/bar''"
    by (simp add: Join_def Clean_def Let_def)
  show ?thesis
    using getExpandedPath_zip_suffix [OF b] b d j by simp
qed

end
